theory Spec2Isabelle
  imports Complex_Main
begin

section \<open>Token ids, edges and Go slices\<close>

text \<open>
  Token, node and edge ids are integer identities handed out by the graph store; only
  equality and the tests \<open>t > 0\<close> and \<open>prevNode == 0\<close> are ever applied to them, so
  they are modelled as unbounded integers.
\<close>

type_synonym tokenID = int
type_synonym nodeID = int
type_synonym edgeID = int

definition spaceTokenID :: tokenID where
  "spaceTokenID = -1"

text \<open>The run-time panics the code of \<open>brain.go\<close> can raise.\<close>

datatype panic =
  SliceBoundsOutOfRange
  | IntnInvalidArgument
  | NilDereference

record edge =
  prev :: "tokenID list"
  "next" :: "tokenID list"
  hasSpace :: bool

text \<open>
  A Go slice has a length and a capacity. \<open>tokens\<close> in \<open>toEdges\<close> starts as the nil
  slice (capacity 0) and grows by one-element \<open>append\<close>s; the language leaves the
  capacity after an append to the run-time system and only promises that it is not
  below the length. The growth policy is therefore a parameter \<open>capOf\<close>: the capacity
  the run-time system gives a slice that was grown from nil to the given length.
\<close>

definition sliceCap :: "(nat \<Rightarrow> nat) \<Rightarrow> 'a list \<Rightarrow> nat" where
  "sliceCap capOf xs = (if xs = [] then 0 else max (length xs) (capOf (length xs)))"

text \<open>
  The slice expression \<open>xs[lo:hi]\<close> on a slice of capacity \<open>c\<close>: Go panics unless
  \<open>0 \<le> lo \<le> hi \<le> c\<close>. Entries between the length and the capacity belong to the
  backing array and are not modelled: the window returned here ends at the length.
\<close>

definition sliceExpr :: "nat \<Rightarrow> 'a list \<Rightarrow> int \<Rightarrow> int \<Rightarrow> panic + 'a list" where
  "sliceExpr c xs lo hi =
     (if 0 \<le> lo \<and> lo \<le> hi \<and> hi \<le> int c
      then Inr (take (nat hi - nat lo) (drop (nat lo) xs))
      else Inl SliceBoundsOutOfRange)"

section \<open>The chain and edge builder\<close>

text \<open>
  The two padding loops of \<open>toChain\<close>: \<open>for i := 0; i < order; i++\<close> appends the
  end token to the chain.
\<close>

function padLoop :: "int \<Rightarrow> int \<Rightarrow> tokenID \<Rightarrow> tokenID list \<Rightarrow> tokenID list" where
  "padLoop i order endTokenID chain =
     (if i < order then padLoop (i + 1) order endTokenID (chain @ [endTokenID]) else chain)"
  by pat_completeness auto
termination
  by (relation "measure (\<lambda>(i, order, e, chain). nat (order - i))") auto

declare padLoop.simps [simp del]

definition toChain :: "tokenID \<Rightarrow> int \<Rightarrow> tokenID list \<Rightarrow> tokenID list" where
  "toChain endTokenID order tokenIds =
     padLoop 0 order endTokenID (padLoop 0 order endTokenID [] @ tokenIds)"

text \<open>
  The first loop of \<open>toEdges\<close>: every entry reached by the index is appended to
  \<open>tokens\<close>; when the entry after it is the space sentinel, the current length of
  \<open>tokens\<close> is recorded in \<open>spaces\<close> and the index skips that one entry.
\<close>

fun compactLoop :: "tokenID list \<Rightarrow> tokenID list \<Rightarrow> int list \<Rightarrow> tokenID list \<times> int list" where
  "compactLoop [] tokens spaces = (tokens, spaces)"
| "compactLoop [t] tokens spaces = (tokens @ [t], spaces)"
| "compactLoop (t # u # rest) tokens spaces =
     (if u = spaceTokenID
      then compactLoop rest (tokens @ [t]) (spaces @ [int (length (tokens @ [t]))])
      else compactLoop (u # rest) (tokens @ [t]) spaces)"

text \<open>
  The second loop of \<open>toEdges\<close>, \<open>for i := 1; i < len(tokens)-order+1; i++\<close>, with
  the loop variables \<open>prev\<close>, \<open>spaces\<close> and \<open>ret\<close> passed along.
\<close>

function edgesLoop ::
  "nat \<Rightarrow> int \<Rightarrow> tokenID list \<Rightarrow> int \<Rightarrow> tokenID list \<Rightarrow> int list \<Rightarrow> edge list
     \<Rightarrow> panic + edge list" where
  "edgesLoop c order tokens i prv spaces ret =
     (if i < int (length tokens) - order + 1 then
        (case sliceExpr c tokens i (i + order) of
           Inl p \<Rightarrow> Inl p
         | Inr nxt \<Rightarrow>
             (if spaces \<noteq> [] \<and> hd spaces = i + order - 1
              then edgesLoop c order tokens (i + 1) nxt (tl spaces)
                     (ret @ [\<lparr>prev = prv, next = nxt, hasSpace = True\<rparr>])
              else edgesLoop c order tokens (i + 1) nxt spaces
                     (ret @ [\<lparr>prev = prv, next = nxt, hasSpace = False\<rparr>])))
      else Inr ret)"
  by pat_completeness auto
termination
  by (relation "measure (\<lambda>(c, order, tokens, i, prv, spaces, ret).
        nat (int (length tokens) - order + 1 - i))") auto

declare edgesLoop.simps [simp del]

definition toEdges :: "(nat \<Rightarrow> nat) \<Rightarrow> int \<Rightarrow> tokenID list \<Rightarrow> panic + edge list" where
  "toEdges capOf order tokenIds =
     (case compactLoop tokenIds [] [] of
        (tokens, spaces) \<Rightarrow>
          (case sliceExpr (sliceCap capOf tokens) tokens 0 order of
             Inl p \<Rightarrow> Inl p
           | Inr prv \<Rightarrow> edgesLoop (sliceCap capOf tokens) order tokens 1 prv spaces []))"

section \<open>Opening a brain\<close>

text \<open>
  The tokenizers and the scorer are collaborators whose code is not part of
  \<open>brain.go\<close>; a \<open>Brain\<close> holds which one was selected. A nil interface value is
  \<open>None\<close>. A Go \<open>error\<close> is modelled by its message.
\<close>

datatype tokenizer = CobeTokenizer | MegaHALTokenizer

datatype scorer = cobeScorer

datatype error = Error string

record 'g Brain =
  graph :: 'g
  tok :: "tokenizer option"
  scorer :: scorer

text \<open>
  \<open>strings.ToLower\<close>, on the bytes of the string: the ASCII capitals move to their
  small letters. The code points beyond ASCII that Go also maps never lower to one of the
  letters of \<open>cobe\<close> or \<open>megahal\<close>, so the comparison in \<open>getTokenizer\<close> is not
  affected by leaving them as they are.
\<close>

definition toLowerChar :: "char \<Rightarrow> char" where
  "toLowerChar c =
     (if 65 \<le> (of_char c :: nat) \<and> (of_char c :: nat) \<le> 90
      then char_of ((of_char c :: nat) + 32) else c)"

definition ToLower :: "string \<Rightarrow> string" where
  "ToLower s = map toLowerChar s"

definition getTokenizer :: "string \<Rightarrow> tokenizer option" where
  "getTokenizer name =
     (if ToLower name = ''cobe'' then Some CobeTokenizer
      else if ToLower name = ''megahal'' then Some MegaHALTokenizer
      else None)"

text \<open>
  \<open>OpenBrain\<close>, over the two store operations it calls: \<open>openGraph\<close> and
  \<open>GetInfoString\<close>, each returning a value or an error.
\<close>

definition OpenBrain ::
  "(string \<Rightarrow> error + 'g) \<Rightarrow> ('g \<Rightarrow> string \<Rightarrow> error + string) \<Rightarrow> string
     \<Rightarrow> error + 'g Brain" where
  "OpenBrain openGraph GetInfoString path =
     (case openGraph path of
        Inl err \<Rightarrow> Inl err
      | Inr g \<Rightarrow>
          (case GetInfoString g ''version'' of
             Inl err \<Rightarrow> Inl err
           | Inr version \<Rightarrow>
               if version \<noteq> ''2''
               then Inl (Error (''cannot read version '' @ version @ '' brain''))
               else (case GetInfoString g ''tokenizer'' of
                       Inl err \<Rightarrow> Inl err
                     | Inr tokenizer \<Rightarrow>
                         Inr \<lparr>graph = g, tok = getTokenizer tokenizer,
                              scorer = cobeScorer\<rparr>)))"

section \<open>Learning\<close>

text \<open>
  The operations of the graph store that \<open>Learn\<close> calls, over a store state \<open>'g\<close>.
  The mutating ones return the new state. A brain is modelled between \<open>OpenBrain\<close>
  and \<open>Close\<close>, while its graph is not nil.
\<close>

record 'g graphOps =
  getOrder :: "'g \<Rightarrow> int"
  endTokenID :: "'g \<Rightarrow> tokenID"
  GetOrCreateToken :: "string \<Rightarrow> 'g \<Rightarrow> tokenID \<times> 'g"
  GetOrCreateNode :: "tokenID list \<Rightarrow> 'g \<Rightarrow> nodeID \<times> 'g"
  addEdge :: "nodeID \<Rightarrow> nodeID \<Rightarrow> bool \<Rightarrow> 'g \<Rightarrow> 'g"

fun countLoop :: "string list \<Rightarrow> int \<Rightarrow> int" where
  "countLoop [] count = count"
| "countLoop (token # rest) count =
     (if token \<noteq> '' '' then countLoop rest (count + 1) else countLoop rest count)"

definition countGoodTokens :: "string list \<Rightarrow> int" where
  "countGoodTokens tokens = countLoop tokens 0"

text \<open>The loop of \<open>Learn\<close> that turns the tokens into token ids.\<close>

fun resolveTokens ::
  "'g graphOps \<Rightarrow> string list \<Rightarrow> tokenID list \<Rightarrow> 'g \<Rightarrow> tokenID list \<times> 'g" where
  "resolveTokens ops [] tokenIds g = (tokenIds, g)"
| "resolveTokens ops (text # rest) tokenIds g =
     (if text = '' '' then resolveTokens ops rest (tokenIds @ [spaceTokenID]) g
      else (case GetOrCreateToken ops text g of
              (tokenID, g') \<Rightarrow> resolveTokens ops rest (tokenIds @ [tokenID]) g'))"

text \<open>\<open>forEdges\<close> builds the chain and its edges; the callback then runs on each edge.\<close>

definition forEdges ::
  "(nat \<Rightarrow> nat) \<Rightarrow> 'g graphOps \<Rightarrow> 'g \<Rightarrow> tokenID list \<Rightarrow> panic + edge list" where
  "forEdges capOf ops g tokenIds =
     toEdges capOf (getOrder ops g) (toChain (endTokenID ops g) (getOrder ops g) tokenIds)"

text \<open>The callback of \<open>Learn\<close>, run over the edges, with its variable \<open>prevNode\<close>.\<close>

fun learnEdges :: "'g graphOps \<Rightarrow> edge list \<Rightarrow> nodeID \<Rightarrow> 'g \<Rightarrow> 'g" where
  "learnEdges ops [] prevNode g = g"
| "learnEdges ops (e # es) prevNode g =
     (case (if prevNode = 0 then GetOrCreateNode ops (prev e) g else (prevNode, g)) of
        (prevNode', g1) \<Rightarrow>
          (case GetOrCreateNode ops (next e) g1 of
             (nextNode, g2) \<Rightarrow>
               learnEdges ops es nextNode (addEdge ops prevNode' nextNode (hasSpace e) g2)))"

definition Learn ::
  "(nat \<Rightarrow> nat) \<Rightarrow> (tokenizer \<Rightarrow> string \<Rightarrow> string list) \<Rightarrow> 'g graphOps \<Rightarrow> 'g Brain
     \<Rightarrow> string \<Rightarrow> panic + 'g" where
  "Learn capOf Split ops b text =
     (case tok b of
        None \<Rightarrow> Inl NilDereference
      | Some tk \<Rightarrow>
          (let tokens = Split tk text in
           if countGoodTokens tokens \<le> getOrder ops (graph b) then Inr (graph b)
           else (case resolveTokens ops tokens [] (graph b) of
                   (tokenIds, g) \<Rightarrow>
                     (case forEdges capOf ops g tokenIds of
                        Inl p \<Rightarrow> Inl p
                      | Inr edges \<Rightarrow> Inr (learnEdges ops edges 0 g)))))"

section \<open>Replying\<close>

text \<open>
  A \<open>float64\<close> score. Only the comparison \<open>score > bestScore\<close> is applied to it; it
  is false whenever either side is NaN.
\<close>

datatype float64 = NaN | NegInf | Finite real | PosInf

fun f64_gt :: "float64 \<Rightarrow> float64 \<Rightarrow> bool" where
  "f64_gt NaN _ = False"
| "f64_gt _ NaN = False"
| "f64_gt NegInf _ = False"
| "f64_gt _ NegInf = True"
| "f64_gt (Finite a) (Finite b) = (a > b)"
| "f64_gt (Finite a) PosInf = False"
| "f64_gt PosInf (Finite b) = True"
| "f64_gt PosInf PosInf = False"

text \<open>
  What \<open>Reply\<close> takes from its collaborators: the tokenizer, the reads of the graph
  store (which \<open>Reply\<close> never mutates), the scorer, and the random sources.
  \<open>getRandomToken w k\<close> is the result of the \<open>k\<close>-th call of one babble;
  \<open>randInt w k\<close> is the random number behind the \<open>rand.Intn\<close> call of the
  \<open>k\<close>-th search. \<open>getTextByEdge\<close> gives the word and its space flag; its error is
  only logged.
\<close>

record collaborators =
  Split :: "tokenizer \<Rightarrow> string \<Rightarrow> string list"
  filterPivots :: "string list \<Rightarrow> tokenID list"
  getTokensByStem :: "string \<Rightarrow> tokenID list"
  getRandomToken :: "nat \<Rightarrow> int"
  randInt :: "nat \<Rightarrow> nat"
  Score :: "edgeID list \<Rightarrow> float64"
  getTextByEdge :: "edgeID \<Rightarrow> string \<times> bool"

text \<open>
  \<open>unique\<close> and \<open>uniqueIds\<close> send their argument through a map and read the keys
  back; Go leaves the order of that iteration open. The model keeps the first
  occurrences in order. Nothing below depends on the order.
\<close>

definition unique :: "string list \<Rightarrow> string list" where
  "unique tokens = remdups tokens"

definition uniqueIds :: "tokenID list \<Rightarrow> tokenID list" where
  "uniqueIds ids = remdups ids"

fun conflateStems :: "collaborators \<Rightarrow> string list \<Rightarrow> tokenID list" where
  "conflateStems w [] = []"
| "conflateStems w (token # rest) = getTokensByStem w token @ conflateStems w rest"

definition babble :: "collaborators \<Rightarrow> tokenID list" where
  "babble w = filter (\<lambda>t. t > 0) (map (getRandomToken w) [0..<5])"

text \<open>\<open>rand.Intn(n)\<close> panics when \<open>n \<le> 0\<close> and returns a number below \<open>n\<close> otherwise.\<close>

definition pickPivot :: "nat \<Rightarrow> tokenID list \<Rightarrow> panic + tokenID" where
  "pickPivot r tokenIds =
     (if length tokenIds = 0 then Inl IntnInvalidArgument
      else Inr (tokenIds ! (r mod length tokenIds)))"

text \<open>
  \<open>replySearch\<close> picks the pivot and opens the two searches in the store. What the
  searches then produce belongs to the store, so the model receives it from outside:
  one \<open>advance\<close> per call of the closure \<open>next\<close>, holding what \<open>revIter\<close> and
  \<open>fwdIter\<close> give (\<open>None\<close> when \<open>Next()\<close> is false).
\<close>

definition replySearch :: "collaborators \<Rightarrow> nat \<Rightarrow> tokenID list \<Rightarrow> panic + tokenID" where
  "replySearch w k tokenIds = pickPivot (randInt w k) tokenIds"

type_synonym advance = "edgeID list option \<times> edgeID list option"

definition join :: "edgeID list \<Rightarrow> edgeID list \<Rightarrow> edgeID list" where
  "join rv fwd = rev rv @ fwd"

fun nextResult :: "advance \<Rightarrow> edgeID list option" where
  "nextResult (None, _) = None"
| "nextResult (Some rv, None) = None"
| "nextResult (Some rv, Some fwd) = Some (join rv fwd)"

fun parts :: "collaborators \<Rightarrow> edgeID list \<Rightarrow> string list" where
  "parts w [] = []"
| "parts w (e # es) =
     (case getTextByEdge w e of
        (word, space) \<Rightarrow> (if space then [word, '' ''] else [word]) @ parts w es)"

definition ToString :: "collaborators \<Rightarrow> edgeID list \<Rightarrow> string" where
  "ToString w edges = concat (parts w edges)"

text \<open>
  The variables of the selection loop. A reply is its edge list. \<open>searches\<close> counts
  the calls of \<open>replySearch\<close>.
\<close>

record selection =
  bestReply :: "edgeID list option"
  bestScore :: float64
  count :: int
  searches :: nat

text \<open>
  The loop \<open>for time.Now().Before(endTime)\<close>: the clock decides how many times the
  body runs, so the loop is run over the list of the advances that happen before the
  deadline.
\<close>

fun replyLoop ::
  "collaborators \<Rightarrow> tokenID list \<Rightarrow> advance list \<Rightarrow> selection \<Rightarrow> panic + selection" where
  "replyLoop w tokenIds [] st = Inr st"
| "replyLoop w tokenIds (a # rest) st =
     (case nextResult a of
        None \<Rightarrow>
          (case replySearch w (searches st) tokenIds of
             Inl p \<Rightarrow> Inl p
           | Inr pivot \<Rightarrow> replyLoop w tokenIds rest (st\<lparr>searches := searches st + 1\<rparr>))
      | Some edges \<Rightarrow>
          (if f64_gt (Score w edges) (bestScore st)
           then replyLoop w tokenIds rest
                  (st\<lparr>bestReply := Some edges, bestScore := Score w edges,
                      count := count st + 1\<rparr>)
           else replyLoop w tokenIds rest (st\<lparr>count := count st + 1\<rparr>)))"

definition pivotCandidates :: "collaborators \<Rightarrow> string list \<Rightarrow> tokenID list" where
  "pivotCandidates w tokens =
     (let tokenIds = uniqueIds (filterPivots w (unique tokens) @ conflateStems w tokens)
      in if length tokenIds = 0 then babble w else tokenIds)"

definition Reply ::
  "collaborators \<Rightarrow> 'g Brain \<Rightarrow> advance list \<Rightarrow> string \<Rightarrow> panic + string" where
  "Reply w b advances text =
     (case tok b of
        None \<Rightarrow> Inl NilDereference
      | Some tk \<Rightarrow>
          (let tokenIds = pivotCandidates w (Split w tk text) in
           case replySearch w 0 tokenIds of
             Inl p \<Rightarrow> Inl p
           | Inr pivot \<Rightarrow>
               (case replyLoop w tokenIds advances
                       \<lparr>bestReply = None, bestScore = Finite (- 1), count = 0,
                        searches = 1\<rparr> of
                  Inl p \<Rightarrow> Inl p
                | Inr st \<Rightarrow>
                    (case bestReply st of
                       None \<Rightarrow> Inr ''no replies :  (''
                     | Some r \<Rightarrow> Inr (ToString w r)))))"

section \<open>Notions used to state the properties\<close>

text \<open>The entries that the first loop of \<open>toEdges\<close> keeps, without its accumulators.\<close>

fun kept :: "tokenID list \<Rightarrow> tokenID list" where
  "kept [] = []"
| "kept [t] = [t]"
| "kept (t # u # rest) = (if u = spaceTokenID then t # kept rest else t # kept (u # rest))"

text \<open>
  An edge list is chained from \<open>p\<close>: the first edge starts at \<open>p\<close> and every edge
  starts where the one before it ends.
\<close>

fun chained :: "tokenID list \<Rightarrow> edge list \<Rightarrow> bool" where
  "chained p [] = True"
| "chained p (e # es) = (prev e = p \<and> chained (next e) es)"

text \<open>
  The inputs in which every space sentinel comes directly after a content token: the
  sequence does not start with the sentinel and no two sentinels are adjacent.
\<close>

fun noTwoSpaces :: "tokenID list \<Rightarrow> bool" where
  "noTwoSpaces (t # u # rest) =
     (\<not> (t = spaceTokenID \<and> u = spaceTokenID) \<and> noTwoSpaces (u # rest))"
| "noTwoSpaces _ = True"

definition spacesFollowTokens :: "tokenID list \<Rightarrow> bool" where
  "spacesFollowTokens ids \<longleftrightarrow>
     (case ids of [] \<Rightarrow> True | t # _ \<Rightarrow> t \<noteq> spaceTokenID) \<and> noTwoSpaces ids"

text \<open>
  For each content token of the input, in order: whether the entry directly after it is
  the space sentinel.
\<close>

fun spaceAfter :: "tokenID list \<Rightarrow> bool list" where
  "spaceAfter [] = []"
| "spaceAfter (t # rest) =
     (if t = spaceTokenID then spaceAfter rest
      else (case rest of [] \<Rightarrow> False | u # _ \<Rightarrow> u = spaceTokenID) # spaceAfter rest)"

text \<open>The replies that a run of the selection loop scores, in the order it scores them.\<close>

fun candidates :: "advance list \<Rightarrow> edgeID list list" where
  "candidates [] = []"
| "candidates (a # rest) =
     (case nextResult a of None \<Rightarrow> candidates rest | Some edges \<Rightarrow> edges # candidates rest)"

text \<open>The selection loop without the searches: the best reply and its score.\<close>

fun selectBest ::
  "(edgeID list \<Rightarrow> float64) \<Rightarrow> edgeID list list \<Rightarrow> edgeID list option \<times> float64
     \<Rightarrow> edgeID list option \<times> float64" where
  "selectBest sc [] st = st"
| "selectBest sc (c # cs) (best, bs) =
     (if f64_gt (sc c) bs then selectBest sc cs (Some c, sc c) else selectBest sc cs (best, bs))"

section \<open>Collaborators for concrete runs\<close>

text \<open>A growth policy that gives every slice a capacity equal to its length.\<close>

definition exactCap :: "nat \<Rightarrow> nat" where
  "exactCap n = n"

text \<open>
  Modelled from the spec: the tokenizer, whose code is not in \<open>brain.go\<close>. It
  splits the text at spaces; a run of spaces becomes one token equal to a single space,
  between the content tokens.
\<close>

fun splitLoop :: "bool \<Rightarrow> string \<Rightarrow> string \<Rightarrow> string list" where
  "splitLoop inSpace cur [] = (if cur = [] then [] else [cur])"
| "splitLoop inSpace cur (c # cs) =
     (if c = CHR '' ''
      then (if cur = [] then [] else [cur]) @ (if inSpace then [] else ['' ''])
             @ splitLoop True [] cs
      else splitLoop False (cur @ [c]) cs)"

definition splitWords :: "tokenizer \<Rightarrow> string \<Rightarrow> string list" where
  "splitWords tk text = splitLoop False [] text"

text \<open>
  Modelled from the spec: the graph store, whose code is not in \<open>brain.go\<close>, as an
  in-memory store: the metadata, the order, the end token, and the tables of tokens,
  nodes and weighted edges. Creating looks the key up first; adding an edge that exists
  increments its weight.
\<close>

record memGraph =
  info :: "(string \<times> string) list"
  storeOrder :: int
  endToken :: tokenID
  tokenTable :: "(string \<times> tokenID) list"
  nodeTable :: "(tokenID list \<times> nodeID) list"
  edgeTable :: "((nodeID \<times> nodeID \<times> bool) \<times> nat) list"

definition memGetInfoString :: "memGraph \<Rightarrow> string \<Rightarrow> error + string" where
  "memGetInfoString g key =
     (case map_of (info g) key of
        None \<Rightarrow> Inl (Error (''no info: '' @ key))
      | Some v \<Rightarrow> Inr v)"

definition memGetOrCreateToken :: "string \<Rightarrow> memGraph \<Rightarrow> tokenID \<times> memGraph" where
  "memGetOrCreateToken text g =
     (case map_of (tokenTable g) text of
        Some t \<Rightarrow> (t, g)
      | None \<Rightarrow>
          (int (length (tokenTable g)) + 1,
           g\<lparr>tokenTable := tokenTable g @ [(text, int (length (tokenTable g)) + 1)]\<rparr>))"

definition memGetOrCreateNode :: "tokenID list \<Rightarrow> memGraph \<Rightarrow> nodeID \<times> memGraph" where
  "memGetOrCreateNode ts g =
     (case map_of (nodeTable g) ts of
        Some n \<Rightarrow> (n, g)
      | None \<Rightarrow>
          (int (length (nodeTable g)) + 1,
           g\<lparr>nodeTable := nodeTable g @ [(ts, int (length (nodeTable g)) + 1)]\<rparr>))"

definition memAddEdge :: "nodeID \<Rightarrow> nodeID \<Rightarrow> bool \<Rightarrow> memGraph \<Rightarrow> memGraph" where
  "memAddEdge p n sp g =
     (case map_of (edgeTable g) (p, n, sp) of
        None \<Rightarrow> g\<lparr>edgeTable := edgeTable g @ [((p, n, sp), 1)]\<rparr>
      | Some wt \<Rightarrow>
          g\<lparr>edgeTable :=
              map (\<lambda>(k, v). if k = (p, n, sp) then (k, v + 1) else (k, v)) (edgeTable g)\<rparr>)"

definition memOps :: "memGraph graphOps" where
  "memOps = \<lparr>getOrder = storeOrder, endTokenID = endToken,
             GetOrCreateToken = memGetOrCreateToken,
             GetOrCreateNode = memGetOrCreateNode,
             addEdge = memAddEdge\<rparr>"

text \<open>A store of order 3 that holds the end token only, with the given tokenizer name.\<close>

definition freshGraph :: "string \<Rightarrow> memGraph" where
  "freshGraph name =
     \<lparr>info = [(''version'', ''2''), (''tokenizer'', name)], storeOrder = 3, endToken = 1,
      tokenTable = [([], 1)], nodeTable = [], edgeTable = []\<rparr>"

text \<open>
  Collaborators of \<open>Reply\<close> over fixed tables: the pivots the store finds eligible,
  the score of each reply and the word of each edge. No stems are registered, the
  store has no random token to give (it answers 0), and an edge without a word renders
  as the empty text.
\<close>

definition tableCollaborators ::
  "tokenID list \<Rightarrow> (edgeID list \<times> float64) list \<Rightarrow> (edgeID \<times> string) list
     \<Rightarrow> collaborators" where
  "tableCollaborators pivots scores wordsOf =
     \<lparr>Split = splitWords,
      filterPivots = (\<lambda>tokens. pivots),
      getTokensByStem = (\<lambda>token. []),
      getRandomToken = (\<lambda>k. 0),
      randInt = (\<lambda>k. 0),
      Score = (\<lambda>edges. case map_of scores edges of None \<Rightarrow> Finite 0 | Some x \<Rightarrow> x),
      getTextByEdge = (\<lambda>e. case map_of wordsOf e of None \<Rightarrow> ([], False)
                                | Some wd \<Rightarrow> (wd, True))\<rparr>"

section \<open>Lemmas about the loops\<close>

lemma padLoop_replicate:
  "padLoop i order e chain = chain @ replicate (nat (order - i)) e"
proof (induction i order e chain rule: padLoop.induct)
  case (1 i order e chain)
  show ?case
  proof (cases "i < order")
    case True
    then have "nat (order - i) = Suc (nat (order - (i + 1)))" by simp
    with True 1 show ?thesis
      by (subst padLoop.simps) (simp add: replicate_app_Cons_same)
  next
    case False
    then show ?thesis by (subst padLoop.simps) simp
  qed
qed

lemma toChain_replicate:
  "toChain e order ids = replicate (nat order) e @ ids @ replicate (nat order) e"
  by (simp add: toChain_def padLoop_replicate)

lemma compact_kept:
  "compactLoop ids tokens spaces = (ts, sp) \<Longrightarrow> ts = tokens @ kept ids"
  by (induction ids tokens spaces rule: compactLoop.induct) (auto split: if_splits)

lemma fst_compact: "fst (compactLoop ids [] []) = kept ids"
  using compact_kept[of ids "[]" "[]"] by (cases "compactLoop ids [] []") simp

lemma sliceCap_ge: "length xs \<le> sliceCap capOf xs"
  by (simp add: sliceCap_def)

lemma sliceExpr_window:
  assumes "0 \<le> order" "0 \<le> i" "i + order \<le> int (length xs)" "length xs \<le> c"
  shows "sliceExpr c xs i (i + order) = Inr (take (nat order) (drop (nat i) xs))"
proof -
  have "nat (i + order) - nat i = nat order" using assms by simp
  moreover have "i + order \<le> int c" using assms by simp
  ultimately show ?thesis using assms by (simp add: sliceExpr_def)
qed

lemma edgesLoop_step:
  assumes "i < int (length tokens) - order + 1"
    and "sliceExpr c tokens i (i + order) = Inr nxt"
  shows "edgesLoop c order tokens i prv spaces ret =
           edgesLoop c order tokens (i + 1) nxt
             (if spaces \<noteq> [] \<and> hd spaces = i + order - 1 then tl spaces else spaces)
             (ret @ [\<lparr>prev = prv, next = nxt,
                      hasSpace = (spaces \<noteq> [] \<and> hd spaces = i + order - 1)\<rparr>])"
  using assms by (subst edgesLoop.simps) simp

lemma edgesLoop_shape:
  assumes "0 \<le> order" "0 \<le> i" "length tokens \<le> c"
  shows "\<exists>es. edgesLoop c order tokens i prv spaces ret = Inr (ret @ es)
           \<and> length es = nat (int (length tokens) - order + 1 - i)
           \<and> chained prv es
           \<and> (\<forall>e \<in> set es. length (next e) = nat order \<and> set (next e) \<subseteq> set tokens)"
  using assms
proof (induction c order tokens i prv spaces ret rule: edgesLoop.induct)
  case (1 c order tokens i prv spaces ret)
  show ?case
  proof (cases "i < int (length tokens) - order + 1")
    case False
    then show ?thesis by (subst edgesLoop.simps) simp
  next
    case True
    define nxt where "nxt = take (nat order) (drop (nat i) tokens)"
    define hs where "hs \<longleftrightarrow> spaces \<noteq> [] \<and> hd spaces = i + order - 1"
    define e where "e = \<lparr>prev = prv, next = nxt, hasSpace = hs\<rparr>"
    define sp where "sp = (if hs then tl spaces else spaces)"
    have sl: "sliceExpr c tokens i (i + order) = Inr nxt"
      unfolding nxt_def using True 1 by (intro sliceExpr_window) simp_all
    have len: "length nxt = nat order"
      using True 1 by (simp add: nxt_def)
    have sub: "set nxt \<subseteq> set tokens"
      unfolding nxt_def by (meson set_take_subset set_drop_subset subset_trans)
    have cnt: "nat (int (length tokens) - order + 1 - i)
                 = Suc (nat (int (length tokens) - order + 1 - (i + 1)))"
      using True by simp
    have step: "edgesLoop c order tokens i prv spaces ret
                  = edgesLoop c order tokens (i + 1) nxt sp (ret @ [e])"
      unfolding sp_def e_def hs_def by (rule edgesLoop_step[OF True sl])
    have pre: "0 \<le> order" "0 \<le> i + 1" "length tokens \<le> c"
      using 1 by simp_all
    have "\<exists>es. edgesLoop c order tokens (i + 1) nxt sp (ret @ [e]) = Inr ((ret @ [e]) @ es)
           \<and> length es = nat (int (length tokens) - order + 1 - (i + 1))
           \<and> chained nxt es
           \<and> (\<forall>e \<in> set es. length (next e) = nat order \<and> set (next e) \<subseteq> set tokens)"
    proof (cases hs)
      case True
      then have c: "spaces \<noteq> [] \<and> hd spaces = i + order - 1" by (simp add: hs_def)
      show ?thesis
        using "1.IH"(1)[OF \<open>i < int (length tokens) - order + 1\<close> sl c pre] True
        by (simp add: sp_def e_def)
    next
      case False
      then have c: "\<not> (spaces \<noteq> [] \<and> hd spaces = i + order - 1)" by (simp add: hs_def)
      show ?thesis
        using "1.IH"(2)[OF \<open>i < int (length tokens) - order + 1\<close> sl c pre] False
        by (simp add: sp_def e_def)
    qed
    then obtain es where es:
      "edgesLoop c order tokens (i + 1) nxt sp (ret @ [e]) = Inr ((ret @ [e]) @ es)"
      "length es = nat (int (length tokens) - order + 1 - (i + 1))"
      "chained nxt es"
      "\<forall>e \<in> set es. length (next e) = nat order \<and> set (next e) \<subseteq> set tokens"
      by blast
    have "edgesLoop c order tokens i prv spaces ret = Inr (ret @ (e # es))"
      using step es(1) by simp
    moreover have "length (e # es) = nat (int (length tokens) - order + 1 - i)"
      using es(2) cnt by simp
    moreover have "chained prv (e # es)"
      using es(3) by (simp add: e_def)
    moreover have "\<forall>x \<in> set (e # es). length (next x) = nat order \<and> set (next x) \<subseteq> set tokens"
      using es(4) len sub by (simp add: e_def)
    ultimately show ?thesis by blast
  qed
qed

lemma chained_prev_length:
  "chained p es \<Longrightarrow> length p = n \<Longrightarrow> \<forall>e \<in> set es. length (next e) = n
     \<Longrightarrow> \<forall>e \<in> set es. length (prev e) = n"
  by (induction es arbitrary: p) auto

lemma chained_prev_set:
  "chained p es \<Longrightarrow> set p \<subseteq> A \<Longrightarrow> \<forall>e \<in> set es. set (next e) \<subseteq> A
     \<Longrightarrow> \<forall>e \<in> set es. set (prev e) \<subseteq> A"
  by (induction es arbitrary: p) auto

lemma chained_adjacent:
  "chained p es \<Longrightarrow> i + 1 < length es \<Longrightarrow> next (es ! i) = prev (es ! (i + 1))"
proof (induction es arbitrary: p i)
  case Nil
  then show ?case by simp
next
  case (Cons e es)
  show ?case
  proof (cases i)
    case 0
    with Cons.prems show ?thesis by (cases es) simp_all
  next
    case (Suc j)
    from Cons.prems have "chained (next e) es" "j + 1 < length es"
      using Suc by simp_all
    from Cons.IH[OF this] show ?thesis using Suc by simp
  qed
qed

lemma toEdges_shape:
  assumes "toEdges capOf order ids = Inr es"
  shows "0 \<le> order \<and> order \<le> int (sliceCap capOf (fst (compactLoop ids [] [])))
         \<and> length es = length (fst (compactLoop ids [] [])) - nat order
         \<and> chained (take (nat order) (fst (compactLoop ids [] []))) es
         \<and> (\<forall>e \<in> set es. length (next e) = nat order
                \<and> set (next e) \<subseteq> set (fst (compactLoop ids [] [])))"
proof -
  obtain tokens spaces where cp: "compactLoop ids [] [] = (tokens, spaces)"
    by (cases "compactLoop ids [] []")
  define c where "c = sliceCap capOf tokens"
  have rng: "0 \<le> order \<and> order \<le> int c"
    using assms cp by (auto simp: toEdges_def sliceExpr_def c_def split: if_splits)
  then have sl: "sliceExpr c tokens 0 order = Inr (take (nat order) tokens)"
    by (simp add: sliceExpr_def)
  have run: "edgesLoop c order tokens 1 (take (nat order) tokens) spaces [] = Inr es"
    using assms cp sl by (simp add: toEdges_def c_def)
  have "length tokens \<le> c" by (simp add: c_def sliceCap_ge)
  with rng edgesLoop_shape[of order 1 tokens c "take (nat order) tokens" spaces "[]"] run
  have "length es = nat (int (length tokens) - order + 1 - 1)
        \<and> chained (take (nat order) tokens) es
        \<and> (\<forall>e \<in> set es. length (next e) = nat order \<and> set (next e) \<subseteq> set tokens)"
    by auto
  moreover have "nat (int (length tokens) - order + 1 - 1) = length tokens - nat order"
    using rng by linarith
  ultimately show ?thesis using rng cp by (simp add: c_def)
qed

lemma toEdges_total:
  assumes "0 \<le> order" "order \<le> int (sliceCap capOf (fst (compactLoop ids [] [])))"
  shows "\<exists>es. toEdges capOf order ids = Inr es"
proof -
  obtain tokens spaces where cp: "compactLoop ids [] [] = (tokens, spaces)"
    by (cases "compactLoop ids [] []")
  define c where "c = sliceCap capOf tokens"
  have sl: "sliceExpr c tokens 0 order = Inr (take (nat order) tokens)"
    using assms cp by (simp add: sliceExpr_def c_def)
  have "length tokens \<le> c" by (simp add: c_def sliceCap_ge)
  with assms edgesLoop_shape[of order 1 tokens c "take (nat order) tokens" spaces "[]"]
  obtain es where "edgesLoop c order tokens 1 (take (nat order) tokens) spaces [] = Inr es"
    by auto
  then show ?thesis using cp sl by (simp add: toEdges_def c_def)
qed

lemma toEdges_panic:
  assumes "order < 0 \<or> int (sliceCap capOf (fst (compactLoop ids [] []))) < order"
  shows "toEdges capOf order ids = Inl SliceBoundsOutOfRange"
  using assms by (cases "compactLoop ids [] []") (auto simp: toEdges_def sliceExpr_def)

lemma kept_filter:
  "spacesFollowTokens ids \<Longrightarrow> kept ids = filter (\<lambda>t. t \<noteq> spaceTokenID) ids"
proof (induction ids rule: kept.induct)
  case 1
  then show ?case by simp
next
  case (2 t)
  then show ?case by (simp add: spacesFollowTokens_def)
next
  case (3 t u rest)
  show ?case
  proof (cases "u = spaceTokenID")
    case True
    with "3.prems" have "spacesFollowTokens rest"
      by (cases rest) (simp_all add: spacesFollowTokens_def)
    with "3.IH"(1) True "3.prems" show ?thesis
      by (simp add: spacesFollowTokens_def)
  next
    case False
    with "3.prems" have "spacesFollowTokens (u # rest)"
      by (simp add: spacesFollowTokens_def)
    with "3.IH"(2) False "3.prems" show ?thesis
      by (simp add: spacesFollowTokens_def)
  qed
qed

lemma compactLoop_sorted:
  "compactLoop ids tokens spaces = (ts, sp) \<Longrightarrow> sorted_wrt (<) spaces
     \<Longrightarrow> \<forall>p \<in> set spaces. p \<le> int (length tokens) \<Longrightarrow> sorted_wrt (<) sp"
proof (induction ids tokens spaces rule: compactLoop.induct)
  case (1 tokens spaces)
  then show ?case by simp
next
  case (2 t tokens spaces)
  then show ?case by simp
next
  case (3 t u rest tokens spaces)
  show ?case
  proof (cases "u = spaceTokenID")
    case True
    have "sorted_wrt (<) (spaces @ [int (length (tokens @ [t]))])"
      using "3.prems"(2,3) by (auto simp: sorted_wrt_append)
    moreover have "\<forall>p \<in> set (spaces @ [int (length (tokens @ [t]))]).
                     p \<le> int (length (tokens @ [t]))"
      using "3.prems"(3) by auto
    ultimately show ?thesis using "3.IH"(1)[OF True] "3.prems"(1) True by simp
  next
    case False
    have "\<forall>p \<in> set spaces. p \<le> int (length (tokens @ [t]))"
      using "3.prems"(3) by auto
    then show ?thesis using "3.IH"(2)[OF False] "3.prems"(1,2) False by simp
  qed
qed

lemma compactLoop_late_spaces:
  "compactLoop ids tokens spaces = (ts, sp) \<Longrightarrow> spaceTokenID \<notin> set (take n ids)
     \<Longrightarrow> \<forall>p \<in> set sp. p \<in> set spaces \<or> int (length tokens + n) \<le> p"
proof (induction ids tokens spaces arbitrary: n rule: compactLoop.induct)
  case (1 tokens spaces)
  then show ?case by simp
next
  case (2 t tokens spaces)
  then show ?case by simp
next
  case (3 t u rest tokens spaces)
  show ?case
  proof (cases "u = spaceTokenID")
    case True
    with "3.prems"(2) have n: "n \<le> 1"
      by (cases n; cases "n - 1") auto
    from "3.prems"(1) True
    have run: "compactLoop rest (tokens @ [t]) (spaces @ [int (length (tokens @ [t]))]) = (ts, sp)"
      by simp
    from "3.IH"(1)[OF True run, of 0]
    have "\<forall>p \<in> set sp. p \<in> set (spaces @ [int (length (tokens @ [t]))])
            \<or> int (length (tokens @ [t]) + 0) \<le> p" by simp
    with n show ?thesis by auto
  next
    case False
    from "3.prems"(1) False
    have run: "compactLoop (u # rest) (tokens @ [t]) spaces = (ts, sp)" by simp
    have "spaceTokenID \<notin> set (take (n - 1) (u # rest))"
      using "3.prems"(2) by (cases n) auto
    from "3.IH"(2)[OF False run this]
    have "\<forall>p \<in> set sp. p \<in> set spaces \<or> int (length (tokens @ [t]) + (n - 1)) \<le> p" .
    then show ?thesis by (cases n) auto
  qed
qed

lemma compactLoop_positions:
  "compactLoop ids tokens spaces = (ts, sp) \<Longrightarrow> spacesFollowTokens ids
     \<Longrightarrow> p \<in> set sp \<longleftrightarrow>
           p \<in> set spaces
           \<or> (\<exists>j < length (spaceAfter ids). spaceAfter ids ! j \<and> p = int (length tokens + j + 1))"
proof (induction ids tokens spaces rule: compactLoop.induct)
  case (1 tokens spaces)
  then show ?case by simp
next
  case (2 t tokens spaces)
  then show ?case by (simp add: spacesFollowTokens_def)
next
  case (3 t u rest tokens spaces)
  from "3.prems"(2) have t: "t \<noteq> spaceTokenID" by (simp add: spacesFollowTokens_def)
  show ?case
  proof (cases "u = spaceTokenID")
    case True
    with "3.prems"(2) have wf: "spacesFollowTokens rest"
      by (cases rest) (simp_all add: spacesFollowTokens_def)
    from "3.prems"(1) True
    have run: "compactLoop rest (tokens @ [t]) (spaces @ [int (length (tokens @ [t]))]) = (ts, sp)"
      by simp
    have sa: "spaceAfter (t # u # rest) = True # spaceAfter rest"
      using t True by simp
    have "(\<exists>j < length (True # spaceAfter rest). (True # spaceAfter rest) ! j
              \<and> p = int (length tokens + j + 1))
          \<longleftrightarrow> p = int (length tokens + 1)
              \<or> (\<exists>j < length (spaceAfter rest). spaceAfter rest ! j
                    \<and> p = int (length (tokens @ [t]) + j + 1))"
      (is "?L \<longleftrightarrow> ?R")
    proof
      assume ?L
      then obtain j where j: "j < length (True # spaceAfter rest)"
        "(True # spaceAfter rest) ! j" "p = int (length tokens + j + 1)" by blast
      show ?R
      proof (cases j)
        case 0
        with j show ?thesis by simp
      next
        case (Suc j')
        with j have "j' < length (spaceAfter rest) \<and> spaceAfter rest ! j'
            \<and> p = int (length (tokens @ [t]) + j' + 1)" by simp
        then show ?thesis by blast
      qed
    next
      assume ?R
      then show ?L
      proof
        assume "p = int (length tokens + 1)"
        then have "0 < length (True # spaceAfter rest) \<and> (True # spaceAfter rest) ! 0
            \<and> p = int (length tokens + 0 + 1)" by simp
        then show ?L by blast
      next
        assume "\<exists>j < length (spaceAfter rest). spaceAfter rest ! j
                    \<and> p = int (length (tokens @ [t]) + j + 1)"
        then obtain j where "j < length (spaceAfter rest)" "spaceAfter rest ! j"
          "p = int (length (tokens @ [t]) + j + 1)" by blast
        then have "Suc j < length (True # spaceAfter rest) \<and> (True # spaceAfter rest) ! Suc j
            \<and> p = int (length tokens + Suc j + 1)" by simp
        then show ?L by blast
      qed
    qed
    with "3.IH"(1)[OF True run wf] sa show ?thesis by auto
  next
    case False
    with "3.prems"(2) have wf: "spacesFollowTokens (u # rest)"
      by (simp add: spacesFollowTokens_def)
    from "3.prems"(1) False
    have run: "compactLoop (u # rest) (tokens @ [t]) spaces = (ts, sp)" by simp
    have sa: "spaceAfter (t # u # rest) = False # spaceAfter (u # rest)"
      using t False by simp
    have "(\<exists>j < length (False # spaceAfter (u # rest)). (False # spaceAfter (u # rest)) ! j
              \<and> p = int (length tokens + j + 1))
          \<longleftrightarrow> (\<exists>j < length (spaceAfter (u # rest)). spaceAfter (u # rest) ! j
                    \<and> p = int (length (tokens @ [t]) + j + 1))"
      (is "?L \<longleftrightarrow> ?R")
    proof
      assume ?L
      then obtain j where j: "j < length (False # spaceAfter (u # rest))"
        "(False # spaceAfter (u # rest)) ! j" "p = int (length tokens + j + 1)" by blast
      show ?R
      proof (cases j)
        case 0
        with j show ?thesis by simp
      next
        case (Suc j')
        with j have "j' < length (spaceAfter (u # rest)) \<and> spaceAfter (u # rest) ! j'
            \<and> p = int (length (tokens @ [t]) + j' + 1)" by simp
        then show ?thesis by blast
      qed
    next
      assume ?R
      then obtain j where "j < length (spaceAfter (u # rest))" "spaceAfter (u # rest) ! j"
        "p = int (length (tokens @ [t]) + j + 1)" by blast
      then have "Suc j < length (False # spaceAfter (u # rest))
          \<and> (False # spaceAfter (u # rest)) ! Suc j
          \<and> p = int (length tokens + Suc j + 1)" by simp
      then show ?L by blast
    qed
    with "3.IH"(2)[OF False run wf] sa show ?thesis by auto
  qed
qed

lemma spaceAfter_length:
  "length (spaceAfter ids) = length (filter (\<lambda>t. t \<noteq> spaceTokenID) ids)"
  by (induction ids) simp_all

lemma head_of_sorted:
  assumes "sorted_wrt (<) (spaces :: int list)" and "\<forall>p \<in> set spaces. q \<le> p"
  shows "(spaces \<noteq> [] \<and> hd spaces = q) \<longleftrightarrow> q \<in> set spaces"
proof (cases spaces)
  case Nil
  then show ?thesis by simp
next
  case (Cons x xs)
  with assms have "\<forall>y \<in> set xs. x < y" "q \<le> x" by auto
  with Cons show ?thesis by auto
qed

lemma edgesLoop_nth:
  assumes "0 \<le> order" "0 \<le> i" "length tokens \<le> c"
    and "sorted_wrt (<) spaces" and "\<forall>p \<in> set spaces. i + order - 1 \<le> p"
    and "edgesLoop c order tokens i prv spaces ret = Inr (ret @ es)"
  shows "\<forall>k < length es.
           next (es ! k) = take (nat order) (drop (nat i + k) tokens)
           \<and> (hasSpace (es ! k) \<longleftrightarrow> i + int k + order - 1 \<in> set spaces)"
  using assms
proof (induction c order tokens i prv spaces ret arbitrary: es rule: edgesLoop.induct)
  case (1 c order tokens i prv spaces ret)
  show ?case
  proof (cases "i < int (length tokens) - order + 1")
    case False
    then have "edgesLoop c order tokens i prv spaces ret = Inr ret"
      by (subst edgesLoop.simps) simp
    with "1.prems"(6) have "es = []" by simp
    then show ?thesis by simp
  next
    case True
    define nxt where "nxt = take (nat order) (drop (nat i) tokens)"
    define hs where "hs \<longleftrightarrow> spaces \<noteq> [] \<and> hd spaces = i + order - 1"
    define e where "e = \<lparr>prev = prv, next = nxt, hasSpace = hs\<rparr>"
    define sp where "sp = (if hs then tl spaces else spaces)"
    have sl: "sliceExpr c tokens i (i + order) = Inr nxt"
      unfolding nxt_def using True "1.prems" by (intro sliceExpr_window) simp_all
    have step: "edgesLoop c order tokens i prv spaces ret
                  = edgesLoop c order tokens (i + 1) nxt sp (ret @ [e])"
      unfolding sp_def e_def hs_def by (rule edgesLoop_step[OF True sl])
    have pre: "0 \<le> order" "0 \<le> i + 1" "length tokens \<le> c"
      using "1.prems" by simp_all
    from edgesLoop_shape[OF pre, of nxt sp "ret @ [e]"]
    obtain es' where es': "edgesLoop c order tokens (i + 1) nxt sp (ret @ [e])
                             = Inr ((ret @ [e]) @ es')" by blast
    with step "1.prems"(6) have es: "es = e # es'" by simp
    have hsmem: "hs \<longleftrightarrow> i + order - 1 \<in> set spaces"
      unfolding hs_def using "1.prems"(4,5) by (rule head_of_sorted)
    have sorted': "sorted_wrt (<) sp"
      using "1.prems"(4) by (cases spaces) (simp_all add: sp_def)
    have low': "\<forall>p \<in> set sp. (i + 1) + order - 1 \<le> p"
    proof (cases hs)
      case True
      then obtain xs where xs: "spaces = (i + order - 1) # xs"
        by (cases spaces) (auto simp: hs_def)
      with "1.prems"(4) have "\<forall>p \<in> set xs. i + order - 1 < p" by simp
      with True xs show ?thesis by (auto simp: sp_def)
    next
      case False
      with hsmem have "i + order - 1 \<notin> set spaces" by simp
      with "1.prems"(5) have "\<forall>p \<in> set spaces. i + order - 1 < p"
        by (metis order_le_less)
      with False show ?thesis by (auto simp: sp_def)
    qed
    have mem': "\<And>q. i + order - 1 < q \<Longrightarrow> q \<in> set sp \<longleftrightarrow> q \<in> set spaces"
    proof -
      fix q :: int assume q: "i + order - 1 < q"
      show "q \<in> set sp \<longleftrightarrow> q \<in> set spaces"
      proof (cases hs)
        case True
        then obtain xs where xs: "spaces = (i + order - 1) # xs"
          by (cases spaces) (auto simp: hs_def)
        with True q show ?thesis by (auto simp: sp_def)
      next
        case False
        then show ?thesis by (simp add: sp_def)
      qed
    qed
    have ih: "\<forall>k < length es'.
           next (es' ! k) = take (nat order) (drop (nat (i + 1) + k) tokens)
           \<and> (hasSpace (es' ! k) \<longleftrightarrow> (i + 1) + int k + order - 1 \<in> set sp)"
    proof (cases hs)
      case True
      then have c: "spaces \<noteq> [] \<and> hd spaces = i + order - 1" by (simp add: hs_def)
      have sp_eq: "sp = tl spaces" and e_eq: "e = \<lparr>prev = prv, next = nxt, hasSpace = True\<rparr>"
        using True by (simp_all add: sp_def e_def)
      show ?thesis
        using "1.IH"(1)[OF \<open>i < int (length tokens) - order + 1\<close> sl c pre, of es']
          sorted' low' es' unfolding sp_eq e_eq by simp
    next
      case False
      then have c: "\<not> (spaces \<noteq> [] \<and> hd spaces = i + order - 1)" by (simp add: hs_def)
      have sp_eq: "sp = spaces" and e_eq: "e = \<lparr>prev = prv, next = nxt, hasSpace = False\<rparr>"
        using False by (simp_all add: sp_def e_def)
      show ?thesis
        using "1.IH"(2)[OF \<open>i < int (length tokens) - order + 1\<close> sl c pre, of es']
          sorted' low' es' unfolding sp_eq e_eq by simp
    qed
    show ?thesis
    proof (intro allI impI)
      fix k assume k: "k < length es"
      show "next (es ! k) = take (nat order) (drop (nat i + k) tokens)
           \<and> (hasSpace (es ! k) \<longleftrightarrow> i + int k + order - 1 \<in> set spaces)"
      proof (cases k)
        case 0
        with es hsmem show ?thesis by (simp add: e_def nxt_def)
      next
        case (Suc k')
        with k es have k': "k' < length es'" by simp
        have idx: "nat (i + 1) + k' = nat i + Suc k'" using "1.prems"(2) by simp
        have "(i + 1) + int k' + order - 1 \<in> set sp
                \<longleftrightarrow> i + int (Suc k') + order - 1 \<in> set spaces"
          using mem'[of "i + int (Suc k') + order - 1"] by (simp add: algebra_simps)
        with ih k' idx Suc es show ?thesis by simp
      qed
    qed
  qed
qed

lemma toEdges_nth:
  assumes "toEdges capOf order ids = Inr es" and "1 \<le> order"
    and "spaceTokenID \<notin> set (take (nat order) ids)"
  shows "\<forall>k < length es.
           prev (es ! k) = take (nat order) (drop k (fst (compactLoop ids [] [])))
           \<and> next (es ! k) = take (nat order) (drop (Suc k) (fst (compactLoop ids [] [])))
           \<and> (hasSpace (es ! k) \<longleftrightarrow> int k + order \<in> set (snd (compactLoop ids [] [])))"
proof -
  obtain tokens spaces where cp: "compactLoop ids [] [] = (tokens, spaces)"
    by (cases "compactLoop ids [] []")
  define c where "c = sliceCap capOf tokens"
  have rng: "0 \<le> order \<and> order \<le> int c"
    using assms(1) cp by (auto simp: toEdges_def sliceExpr_def c_def split: if_splits)
  then have sl: "sliceExpr c tokens 0 order = Inr (take (nat order) tokens)"
    by (simp add: sliceExpr_def)
  have run: "edgesLoop c order tokens 1 (take (nat order) tokens) spaces [] = Inr ([] @ es)"
    using assms(1) cp sl by (simp add: toEdges_def c_def)
  have cap: "length tokens \<le> c" by (simp add: c_def sliceCap_ge)
  have srt: "sorted_wrt (<) spaces"
    using compactLoop_sorted[OF cp] by simp
  have "\<forall>p \<in> set spaces. p \<in> set [] \<or> int (length ([] :: tokenID list) + nat order) \<le> p"
    using cp assms(3) by (rule compactLoop_late_spaces)
  then have low: "\<forall>p \<in> set spaces. 1 + order - 1 \<le> p"
    using assms(2) by simp
  have "0 \<le> order" "(0::int) \<le> 1" using assms(2) by simp_all
  from edgesLoop_nth[OF this cap srt low run]
  have nx: "\<forall>k < length es. next (es ! k) = take (nat order) (drop (Suc k) tokens)
              \<and> (hasSpace (es ! k) \<longleftrightarrow> int k + order \<in> set spaces)"
    by (simp add: add.commute)
  from toEdges_shape[OF assms(1)] cp
  have ch: "chained (take (nat order) tokens) es" by simp
  have pv: "\<forall>k < length es. prev (es ! k) = take (nat order) (drop k tokens)"
  proof (intro allI impI)
    fix k assume k: "k < length es"
    show "prev (es ! k) = take (nat order) (drop k tokens)"
    proof (cases k)
      case 0
      with k ch show ?thesis by (cases es) simp_all
    next
      case (Suc k')
      with k have "k' + 1 < length es" by simp
      from chained_adjacent[OF ch this] have "prev (es ! k) = next (es ! k')"
        using Suc by simp
      moreover have "k' < length es" using Suc k by simp
      ultimately show ?thesis using nx Suc by simp
    qed
  qed
  from nx pv cp show ?thesis by simp
qed

lemma noTwoSpaces_Cons: "x \<noteq> spaceTokenID \<Longrightarrow> noTwoSpaces (x # xs) = noTwoSpaces xs"
  by (cases xs) simp_all

lemma noTwoSpaces_replicate_append:
  "e \<noteq> spaceTokenID \<Longrightarrow> noTwoSpaces (replicate n e @ ys) = noTwoSpaces ys"
  by (induction n) (simp_all add: noTwoSpaces_Cons)

lemma noTwoSpaces_append_replicate:
  "noTwoSpaces xs \<Longrightarrow> e \<noteq> spaceTokenID \<Longrightarrow> noTwoSpaces (xs @ replicate n e)"
proof (induction xs)
  case Nil
  then show ?case using noTwoSpaces_replicate_append[of e n "[]"] by simp
next
  case (Cons x xs)
  show ?case
  proof (cases xs)
    case Nil
    have "noTwoSpaces (replicate n e)"
      using noTwoSpaces_replicate_append[of e n "[]"] Cons.prems(2) by simp
    with Nil Cons.prems(2) show ?thesis by (cases n) simp_all
  next
    case (Cons y ys)
    with Cons.prems(1) have "noTwoSpaces xs" by simp
    from Cons.IH[OF this Cons.prems(2)] Cons Cons.prems(1) show ?thesis by simp
  qed
qed

text \<open>
  The chains that \<open>forEdges\<close> hands to \<open>toEdges\<close>: when the token ids hold no two
  adjacent sentinels and the end token is not the sentinel, every sentinel of the chain
  comes directly after a content token and none is among its first \<open>order\<close> entries.
\<close>

lemma toChain_spaces_follow_tokens:
  assumes "noTwoSpaces ids" and "e \<noteq> spaceTokenID" and "1 \<le> order"
  shows "spacesFollowTokens (toChain e order ids)
         \<and> spaceTokenID \<notin> set (take (nat order) (toChain e order ids))"
proof -
  obtain m where m: "nat order = Suc m" using assms(3) by (cases "nat order") simp_all
  have "noTwoSpaces (replicate (nat order) e @ ids @ replicate (nat order) e)"
    using assms(1,2) by (simp add: noTwoSpaces_replicate_append noTwoSpaces_append_replicate)
  moreover have "take (nat order) (toChain e order ids) = replicate (nat order) e"
    by (simp add: toChain_replicate)
  ultimately show ?thesis
    using assms(2) m by (simp add: spacesFollowTokens_def toChain_replicate)
qed

text \<open>
  A sentinel among the first \<open>order\<close> entries is recorded at a position that the window
  loop never tests, and it stays at the head of \<open>spaces\<close>: here no edge gets the flag,
  although a sentinel separates 1 from 2 and 3 from 4.
\<close>

lemma toEdges_early_space_example:
  "toEdges capOf 2 [1, spaceTokenID, 2, 3, spaceTokenID, 4] =
     Inr [\<lparr>prev = [1, 2], next = [2, 3], hasSpace = False\<rparr>,
          \<lparr>prev = [2, 3], next = [3, 4], hasSpace = False\<rparr>]"
  by (simp add: toEdges_def spaceTokenID_def sliceCap_def sliceExpr_def edgesLoop.simps)

section \<open>The chain and edge builder: properties\<close>

text \<open>
  C1. For order 3 and the token ids \<open>[1,1,1,2,SPACE,3,SPACE,4,SPACE,5,1,1,1]\<close>,
  \<open>toEdges\<close> returns exactly the seven edges of the worked example, in this order,
  whatever capacities the run-time system chooses.
\<close>

theorem toEdges_worked_example:
  "toEdges capOf 3
     [1, 1, 1, 2, spaceTokenID, 3, spaceTokenID, 4, spaceTokenID, 5, 1, 1, 1] =
   Inr [\<lparr>prev = [1, 1, 1], next = [1, 1, 2], hasSpace = False\<rparr>,
        \<lparr>prev = [1, 1, 2], next = [1, 2, 3], hasSpace = True\<rparr>,
        \<lparr>prev = [1, 2, 3], next = [2, 3, 4], hasSpace = True\<rparr>,
        \<lparr>prev = [2, 3, 4], next = [3, 4, 5], hasSpace = True\<rparr>,
        \<lparr>prev = [3, 4, 5], next = [4, 5, 1], hasSpace = False\<rparr>,
        \<lparr>prev = [4, 5, 1], next = [5, 1, 1], hasSpace = False\<rparr>,
        \<lparr>prev = [5, 1, 1], next = [1, 1, 1], hasSpace = False\<rparr>]"
  by (simp add: toEdges_def spaceTokenID_def sliceCap_def sliceExpr_def edgesLoop.simps)

text \<open>
  C2, as the claim states it, fails: of two adjacent space sentinels only the first is
  removed. For order 1 and the input \<open>[1, SPACE, SPACE, 2]\<close> the second sentinel is
  the content of a window of both edges.
\<close>

theorem toEdges_space_run_counterexample:
  "toEdges exactCap 1 [1, spaceTokenID, spaceTokenID, 2] =
     Inr [\<lparr>prev = [1], next = [spaceTokenID], hasSpace = True\<rparr>,
          \<lparr>prev = [spaceTokenID], next = [2], hasSpace = False\<rparr>]"
  by (simp add: toEdges_def spaceTokenID_def sliceCap_def sliceExpr_def edgesLoop.simps
      exactCap_def)

text \<open>
  C2, amended. \<open>toEdges\<close> removes a space sentinel only when it comes directly after
  an entry it has kept. When every sentinel of the input comes directly after a content
  token (the input does not start with a sentinel and has no two adjacent sentinels),
  the compacted stream is the input without its sentinels, and no sentinel is an entry
  of the \<open>prev\<close> or \<open>next\<close> window of any edge. When, in addition, the order is at
  least 1 and no sentinel is among the first \<open>order\<close> entries of the input, as in
  every chain that \<open>toChain\<close> builds, the \<open>k\<close>-th edge goes from the window of the
  content tokens at \<open>k\<close> to the window at \<open>k + 1\<close>, and its single boolean
  \<open>hasSpace\<close> is true exactly when a sentinel directly follows the last content token
  of its \<open>prev\<close> window, that is, lies on the boundary between that token and the
  token that \<open>next\<close> adds.
\<close>

theorem toEdges_spaces_become_flags:
  assumes "spacesFollowTokens ids" and "toEdges capOf order ids = Inr es"
  shows "fst (compactLoop ids [] []) = filter (\<lambda>t. t \<noteq> spaceTokenID) ids
         \<and> (\<forall>e \<in> set es. spaceTokenID \<notin> set (prev e) \<and> spaceTokenID \<notin> set (next e))
         \<and> (1 \<le> order \<and> spaceTokenID \<notin> set (take (nat order) ids) \<longrightarrow>
              (\<forall>k < length es.
                 prev (es ! k) =
                   take (nat order) (drop k (filter (\<lambda>t. t \<noteq> spaceTokenID) ids))
                 \<and> next (es ! k) =
                   take (nat order) (drop (Suc k) (filter (\<lambda>t. t \<noteq> spaceTokenID) ids))
                 \<and> hasSpace (es ! k) = spaceAfter ids ! (k + nat order - 1)))"
proof -
  let ?tokens = "fst (compactLoop ids [] [])"
  let ?spaces = "snd (compactLoop ids [] [])"
  have toks: "?tokens = filter (\<lambda>t. t \<noteq> spaceTokenID) ids"
    using assms(1) by (simp add: fst_compact kept_filter)
  then have nosp: "spaceTokenID \<notin> set ?tokens" by simp
  from toEdges_shape[OF assms(2)]
  have len: "length es = length ?tokens - nat order"
    and ch: "chained (take (nat order) ?tokens) es"
    and nx: "\<forall>e \<in> set es. set (next e) \<subseteq> set ?tokens"
    by simp_all
  have "set (take (nat order) ?tokens) \<subseteq> set ?tokens" by (rule set_take_subset)
  from chained_prev_set[OF ch this nx]
  have pv: "\<forall>e \<in> set es. set (prev e) \<subseteq> set ?tokens" .
  have windows: "\<forall>e \<in> set es. spaceTokenID \<notin> set (prev e) \<and> spaceTokenID \<notin> set (next e)"
    using nosp nx pv by blast
  have flags: "\<forall>k < length es.
                 prev (es ! k) = take (nat order) (drop k ?tokens)
                 \<and> next (es ! k) = take (nat order) (drop (Suc k) ?tokens)
                 \<and> hasSpace (es ! k) = spaceAfter ids ! (k + nat order - 1)"
    if ord: "1 \<le> order" and early: "spaceTokenID \<notin> set (take (nat order) ids)"
  proof (intro allI impI)
    fix k assume k: "k < length es"
    from toEdges_nth[OF assms(2) ord early] k
    have w: "prev (es ! k) = take (nat order) (drop k ?tokens)"
      "next (es ! k) = take (nat order) (drop (Suc k) ?tokens)"
      and f: "hasSpace (es ! k) \<longleftrightarrow> int k + order \<in> set ?spaces"
      by simp_all
    have cp: "compactLoop ids [] [] = (?tokens, ?spaces)" by simp
    from compactLoop_positions[OF cp assms(1), of "int k + order"]
    have mem: "int k + order \<in> set ?spaces \<longleftrightarrow>
                 (\<exists>j < length (spaceAfter ids). spaceAfter ids ! j \<and> int k + order = int (j + 1))"
      by simp
    have inb: "k + nat order - 1 < length (spaceAfter ids)"
      using k len toks by (simp add: spaceAfter_length)
    have "(\<exists>j < length (spaceAfter ids). spaceAfter ids ! j \<and> int k + order = int (j + 1))
            \<longleftrightarrow> spaceAfter ids ! (k + nat order - 1)"
    proof
      assume "\<exists>j < length (spaceAfter ids). spaceAfter ids ! j \<and> int k + order = int (j + 1)"
      then obtain j where j: "spaceAfter ids ! j" "int k + order = int (j + 1)" by blast
      from j(2) ord have "j = k + nat order - 1" by linarith
      with j(1) show "spaceAfter ids ! (k + nat order - 1)" by simp
    next
      assume sa: "spaceAfter ids ! (k + nat order - 1)"
      have "int k + order = int ((k + nat order - 1) + 1)" using ord by linarith
      with sa inb show "\<exists>j < length (spaceAfter ids). spaceAfter ids ! j
                           \<and> int k + order = int (j + 1)" by blast
    qed
    with f mem w show "prev (es ! k) = take (nat order) (drop k ?tokens)
                 \<and> next (es ! k) = take (nat order) (drop (Suc k) ?tokens)
                 \<and> hasSpace (es ! k) = spaceAfter ids ! (k + nat order - 1)"
      by simp
  qed
  from toks windows flags show ?thesis by simp
qed

theorem toEdges_spaces_become_flags_witness:
  "spacesFollowTokens [1, 2, spaceTokenID, 3, 4]
   \<and> toEdges exactCap 2 [1, 2, spaceTokenID, 3, 4] =
       Inr [\<lparr>prev = [1, 2], next = [2, 3], hasSpace = True\<rparr>,
            \<lparr>prev = [2, 3], next = [3, 4], hasSpace = False\<rparr>]
   \<and> (1::int) \<le> 2 \<and> spaceTokenID \<notin> set (take (nat 2) [1, 2, spaceTokenID, 3, 4])
   \<and> fst (compactLoop [1, 2, spaceTokenID, 3, 4] [] []) = [1, 2, 3, 4]
   \<and> spaceAfter [1, 2, spaceTokenID, 3, 4] = [False, True, False, False]
   \<and> hasSpace ([\<lparr>prev = [1, 2], next = [2, 3], hasSpace = True\<rparr>,
                \<lparr>prev = [2, 3], next = [3, 4], hasSpace = False\<rparr>] ! 0)
       = spaceAfter [1, 2, spaceTokenID, 3, 4] ! (0 + nat 2 - 1)"
proof -
  have h1: "spacesFollowTokens [1, 2, spaceTokenID, 3, 4]"
    by (simp add: spacesFollowTokens_def spaceTokenID_def)
  have h2: "toEdges exactCap 2 [1, 2, spaceTokenID, 3, 4] =
       Inr [\<lparr>prev = [1, 2], next = [2, 3], hasSpace = True\<rparr>,
            \<lparr>prev = [2, 3], next = [3, 4], hasSpace = False\<rparr>]"
    by (simp add: toEdges_def spaceTokenID_def sliceCap_def sliceExpr_def edgesLoop.simps
        exactCap_def)
  have h3: "(1::int) \<le> 2 \<and> spaceTokenID \<notin> set (take (nat 2) [1, 2, spaceTokenID, 3, 4])"
    by (simp add: spaceTokenID_def take_Suc_conv_app_nth numeral_2_eq_2)
  have sa: "spaceAfter [1, 2, spaceTokenID, 3, 4] = [False, True, False, False]"
    by (simp add: spaceTokenID_def)
  have tk: "fst (compactLoop [1, 2, spaceTokenID, 3, 4] [] []) = [1, 2, 3, 4]"
    by (simp add: spaceTokenID_def)
  from toEdges_spaces_become_flags[OF h1 h2] h3
  have "hasSpace ([\<lparr>prev = [1, 2], next = [2, 3], hasSpace = True\<rparr>,
                \<lparr>prev = [2, 3], next = [3, 4], hasSpace = False\<rparr>] ! 0)
       = spaceAfter [1, 2, spaceTokenID, 3, 4] ! (0 + nat 2 - 1)"
    by simp
  with h1 h2 h3 sa tk show ?thesis by blast
qed

text \<open>
  C3, as the claim states it, fails: on the empty input the compacted stream has no
  token, \<open>tokens\<close> is the nil slice of capacity 0, and \<open>tokens[0:order]\<close> panics
  for order 1.
\<close>

theorem toEdges_short_input_counterexample:
  "toEdges exactCap 1 [] = Inl SliceBoundsOutOfRange"
  by (simp add: toEdges_def sliceCap_def sliceExpr_def)

text \<open>
  C3, amended. For every order \<open>n \<ge> 1\<close> and every input whose compacted stream has
  fewer than \<open>n + 1\<close> tokens, \<open>toEdges\<close> produces no edge: it returns the empty
  edge list when \<open>n\<close> is within the capacity of the compacted slice, which is so
  whenever the compacted stream has exactly \<open>n\<close> tokens, and it panics on
  \<open>tokens[0:order]\<close> when \<open>n\<close> is beyond that capacity, which is so on the empty
  input.
\<close>

theorem toEdges_short_input:
  assumes "1 \<le> order" and "length (fst (compactLoop ids [] [])) < nat order + 1"
  shows "toEdges capOf order ids =
           (if order \<le> int (sliceCap capOf (fst (compactLoop ids [] [])))
            then Inr [] else Inl SliceBoundsOutOfRange)
         \<and> (length (fst (compactLoop ids [] [])) = nat order \<longrightarrow> toEdges capOf order ids = Inr [])
         \<and> (ids = [] \<longrightarrow> toEdges capOf order ids = Inl SliceBoundsOutOfRange)"
proof -
  let ?tokens = "fst (compactLoop ids [] [])"
  have main: "toEdges capOf order ids =
           (if order \<le> int (sliceCap capOf ?tokens) then Inr [] else Inl SliceBoundsOutOfRange)"
  proof (cases "order \<le> int (sliceCap capOf ?tokens)")
    case True
    with assms(1) toEdges_total[of order capOf ids]
    obtain es where es: "toEdges capOf order ids = Inr es" by auto
    from toEdges_shape[OF es] have "length es = length ?tokens - nat order" by simp
    with assms(2) have "es = []" by simp
    with es True show ?thesis by simp
  next
    case False
    then show ?thesis by (simp add: toEdges_panic)
  qed
  have eq: "length ?tokens = nat order \<longrightarrow> toEdges capOf order ids = Inr []"
  proof
    assume "length ?tokens = nat order"
    then have "order \<le> int (sliceCap capOf ?tokens)"
      using sliceCap_ge[of ?tokens capOf] assms(1) by linarith
    with main show "toEdges capOf order ids = Inr []" by simp
  qed
  have emp: "ids = [] \<longrightarrow> toEdges capOf order ids = Inl SliceBoundsOutOfRange"
  proof
    assume "ids = []"
    then have "\<not> order \<le> int (sliceCap capOf ?tokens)"
      using assms(1) by (simp add: sliceCap_def)
    with main show "toEdges capOf order ids = Inl SliceBoundsOutOfRange" by simp
  qed
  from main eq emp show ?thesis by blast
qed

theorem toEdges_short_input_witness:
  "(1::int) \<le> 3 \<and> length (fst (compactLoop [1, spaceTokenID, 2, 3] [] [])) < nat 3 + 1
   \<and> toEdges exactCap 3 [1, spaceTokenID, 2, 3] = Inr []"
proof -
  have h1: "(1::int) \<le> 3" by simp
  have h2: "length (fst (compactLoop [1, spaceTokenID, 2, 3] [] [])) < nat 3 + 1"
    by (simp add: spaceTokenID_def)
  have h3: "length (fst (compactLoop [1, spaceTokenID, 2, 3] [] [])) = nat 3"
    by (simp add: spaceTokenID_def)
  from toEdges_short_input[OF h1 h2, of exactCap] h3
  have "toEdges exactCap 3 [1, spaceTokenID, 2, 3] = Inr []" by blast
  with h1 h2 show ?thesis by blast
qed

text \<open>
  C8. For every order \<open>n \<ge> 1\<close> and every edge list that \<open>toEdges\<close> returns, the
  \<open>prev\<close> and \<open>next\<close> windows of each edge have length exactly \<open>n\<close>, and for
  every two consecutive edges the \<open>next\<close> of the first is the \<open>prev\<close> of the
  second.
\<close>

theorem toEdges_windows_chain:
  assumes "1 \<le> order" and "toEdges capOf order ids = Inr es"
  shows "(\<forall>e \<in> set es. length (prev e) = nat order \<and> length (next e) = nat order)
         \<and> (\<forall>i. i + 1 < length es \<longrightarrow> next (es ! i) = prev (es ! (i + 1)))"
proof -
  let ?tokens = "fst (compactLoop ids [] [])"
  from toEdges_shape[OF assms(2)]
  have len: "length es = length ?tokens - nat order"
    and ch: "chained (take (nat order) ?tokens) es"
    and nx: "\<forall>e \<in> set es. length (next e) = nat order"
    by simp_all
  have pv: "\<forall>e \<in> set es. length (prev e) = nat order"
  proof (cases "es = []")
    case True
    then show ?thesis by simp
  next
    case False
    with len have "nat order < length ?tokens" by (cases es) simp_all
    then have "length (take (nat order) ?tokens) = nat order" by simp
    from chained_prev_length[OF ch this nx] show ?thesis .
  qed
  from pv nx chained_adjacent[OF ch] show ?thesis by blast
qed

theorem toEdges_windows_chain_witness:
  "(1::int) \<le> 2
   \<and> toEdges exactCap 2 [1, 2, spaceTokenID, 3, 4] =
       Inr [\<lparr>prev = [1, 2], next = [2, 3], hasSpace = True\<rparr>,
            \<lparr>prev = [2, 3], next = [3, 4], hasSpace = False\<rparr>]
   \<and> next ([\<lparr>prev = [1, 2], next = [2, 3], hasSpace = True\<rparr>,
            \<lparr>prev = [2, 3], next = [3, 4], hasSpace = False\<rparr>] ! 0) =
     prev ([\<lparr>prev = [1, 2], next = [2, 3], hasSpace = True\<rparr>,
            \<lparr>prev = [2, 3], next = [3, 4], hasSpace = False\<rparr>] ! (0 + 1))"
proof -
  have h1: "(1::int) \<le> 2" by simp
  have h2: "toEdges exactCap 2 [1, 2, spaceTokenID, 3, 4] =
       Inr [\<lparr>prev = [1, 2], next = [2, 3], hasSpace = True\<rparr>,
            \<lparr>prev = [2, 3], next = [3, 4], hasSpace = False\<rparr>]"
    by (simp add: toEdges_def spaceTokenID_def sliceCap_def sliceExpr_def edgesLoop.simps
        exactCap_def)
  from toEdges_windows_chain[OF h1 h2] h1 h2 show ?thesis by simp
qed

text \<open>
  C9. For every order \<open>n \<ge> 1\<close> and every input, \<open>toChain\<close> returns a sequence of
  length input length plus \<open>2n\<close>, whose first \<open>n\<close> and last \<open>n\<close> entries all
  equal the end sentinel of the store and whose middle part is the input unchanged.
\<close>

theorem toChain_padding:
  assumes "1 \<le> order"
  shows "length (toChain e order ids) = length ids + 2 * nat order
         \<and> take (nat order) (toChain e order ids) = replicate (nat order) e
         \<and> drop (nat order + length ids) (toChain e order ids) = replicate (nat order) e
         \<and> take (length ids) (drop (nat order) (toChain e order ids)) = ids"
  by (simp add: toChain_replicate)

theorem toChain_padding_witness:
  "(1::int) \<le> 2 \<and> toChain 9 2 [4, 5, 6] = [9, 9, 4, 5, 6, 9, 9]
   \<and> length (toChain 9 2 [4, 5, 6]) = length [4, 5, 6 :: int] + 2 * nat 2"
proof -
  have h1: "(1::int) \<le> 2" by simp
  have "toChain 9 2 [4, 5, 6] = [9, 9, 4, 5, 6, 9, 9]"
    by (simp add: toChain_def padLoop.simps)
  with toChain_padding[OF h1, of 9 "[4, 5, 6]"] show ?thesis by simp
qed

text \<open>
  C10. For every order \<open>n \<ge> 1\<close> and every input whose compacted stream has
  \<open>m \<ge> n\<close> tokens, \<open>toEdges\<close> returns, and returns exactly \<open>m - n\<close> edges.
\<close>

theorem toEdges_count:
  assumes "1 \<le> order" and "nat order \<le> length (fst (compactLoop ids [] []))"
  shows "\<exists>es. toEdges capOf order ids = Inr es
              \<and> length es = length (fst (compactLoop ids [] [])) - nat order"
proof -
  let ?tokens = "fst (compactLoop ids [] [])"
  have "order \<le> int (sliceCap capOf ?tokens)"
    using assms sliceCap_ge[of ?tokens capOf] by linarith
  with assms(1) toEdges_total[of order capOf ids]
  obtain es where es: "toEdges capOf order ids = Inr es" by auto
  from toEdges_shape[OF es] have "length es = length ?tokens - nat order" by simp
  with es show ?thesis by blast
qed

theorem toEdges_count_witness:
  "(1::int) \<le> 2 \<and> nat 2 \<le> length (fst (compactLoop [7, spaceTokenID, 8, 9, 7] [] []))
   \<and> (\<exists>es. toEdges exactCap 2 [7, spaceTokenID, 8, 9, 7] = Inr es \<and> length es = 4 - 2)"
proof -
  have h1: "(1::int) \<le> 2" by simp
  have h2: "nat 2 \<le> length (fst (compactLoop [7, spaceTokenID, 8, 9, 7] [] []))"
    by (simp add: spaceTokenID_def)
  have h3: "length (fst (compactLoop [7, spaceTokenID, 8, 9, 7] [] [])) = 4"
    by (simp add: spaceTokenID_def)
  from toEdges_count[OF h1 h2, of exactCap] h1 h2 h3 show ?thesis by simp
qed

section \<open>Opening, learning and replying: properties\<close>

lemma f64_gt_irrefl: "\<not> f64_gt a a"
  by (cases a) simp_all

lemma f64_gt_trans: "f64_gt a b \<Longrightarrow> f64_gt b c \<Longrightarrow> f64_gt a c"
  by (cases a; cases b; cases c) simp_all

lemma replySearch_ok: "tokenIds \<noteq> [] \<Longrightarrow> \<exists>pivot. replySearch w k tokenIds = Inr pivot"
  by (simp add: replySearch_def pickPivot_def)

lemma replySearch_panic: "replySearch w k [] = Inl IntnInvalidArgument"
  by (simp add: replySearch_def pickPivot_def)

lemma replyLoop_selectBest:
  assumes "tokenIds \<noteq> []"
  shows "\<exists>st'. replyLoop w tokenIds advances st = Inr st'
           \<and> (bestReply st', bestScore st') =
               selectBest (Score w) (candidates advances) (bestReply st, bestScore st)"
proof (induction advances arbitrary: st)
  case Nil
  then show ?case by simp
next
  case (Cons a rest)
  show ?case
  proof (cases "nextResult a")
    case None
    from replySearch_ok[OF assms, of w "searches st"]
    obtain pivot where "replySearch w (searches st) tokenIds = Inr pivot" by blast
    with None Cons.IH[of "st\<lparr>searches := searches st + 1\<rparr>"] show ?thesis by simp
  next
    case (Some edges)
    show ?thesis
    proof (cases "f64_gt (Score w edges) (bestScore st)")
      case True
      with Some
        Cons.IH[of "st\<lparr>bestReply := Some edges, bestScore := Score w edges,
                       count := count st + 1\<rparr>"]
      show ?thesis by simp
    next
      case False
      with Some Cons.IH[of "st\<lparr>count := count st + 1\<rparr>"] show ?thesis by simp
    qed
  qed
qed

lemma selectBest_result:
  assumes "selectBest sc cs (best, bs) = (best', bs')"
  shows "(best' = best \<and> bs' = bs \<and> (\<forall>c \<in> set cs. \<not> f64_gt (sc c) bs))
         \<or> (\<exists>j < length cs. best' = Some (cs ! j) \<and> bs' = sc (cs ! j)
               \<and> f64_gt (sc (cs ! j)) bs
               \<and> (\<forall>k < length cs. \<not> f64_gt (sc (cs ! k)) (sc (cs ! j)))
               \<and> (\<forall>k < j. sc (cs ! k) \<noteq> sc (cs ! j)))"
  using assms
proof (induction cs arbitrary: best bs)
  case Nil
  then show ?case by simp
next
  case (Cons c cs)
  show ?case
  proof (cases "f64_gt (sc c) bs")
    case True
    with Cons.prems have run: "selectBest sc cs (Some c, sc c) = (best', bs')" by simp
    from Cons.IH[OF run] show ?thesis
    proof (elim disjE conjE exE)
      assume same: "best' = Some c" "bs' = sc c" "\<forall>x \<in> set cs. \<not> f64_gt (sc x) (sc c)"
      have "\<forall>k < length (c # cs). \<not> f64_gt (sc ((c # cs) ! k)) (sc c)"
      proof (intro allI impI)
        fix k assume "k < length (c # cs)"
        then show "\<not> f64_gt (sc ((c # cs) ! k)) (sc c)"
          using same(3) f64_gt_irrefl by (cases k) auto
      qed
      with same True have "0 < length (c # cs) \<and> best' = Some ((c # cs) ! 0)
          \<and> bs' = sc ((c # cs) ! 0) \<and> f64_gt (sc ((c # cs) ! 0)) bs
          \<and> (\<forall>k < length (c # cs). \<not> f64_gt (sc ((c # cs) ! k)) (sc ((c # cs) ! 0)))
          \<and> (\<forall>k < 0. sc ((c # cs) ! k) \<noteq> sc ((c # cs) ! 0))"
        by simp
      then show ?thesis by blast
    next
      fix j
      assume j: "j < length cs" "best' = Some (cs ! j)" "bs' = sc (cs ! j)"
        "f64_gt (sc (cs ! j)) (sc c)"
        "\<forall>k < length cs. \<not> f64_gt (sc (cs ! k)) (sc (cs ! j))"
        "\<forall>k < j. sc (cs ! k) \<noteq> sc (cs ! j)"
      have gt: "f64_gt (sc (cs ! j)) bs"
        using j(4) True by (rule f64_gt_trans)
      have notc: "\<not> f64_gt (sc c) (sc (cs ! j))"
        using j(4) f64_gt_trans f64_gt_irrefl by blast
      have neq: "sc c \<noteq> sc (cs ! j)"
        using j(4) f64_gt_irrefl by auto
      have mx: "\<forall>k < length (c # cs). \<not> f64_gt (sc ((c # cs) ! k)) (sc (cs ! j))"
      proof (intro allI impI)
        fix k assume "k < length (c # cs)"
        then show "\<not> f64_gt (sc ((c # cs) ! k)) (sc (cs ! j))"
          using notc j(5) by (cases k) auto
      qed
      have fst: "\<forall>k < Suc j. sc ((c # cs) ! k) \<noteq> sc (cs ! j)"
      proof (intro allI impI)
        fix k assume "k < Suc j"
        then show "sc ((c # cs) ! k) \<noteq> sc (cs ! j)"
          using neq j(6) by (cases k) auto
      qed
      from j gt mx fst have "Suc j < length (c # cs) \<and> best' = Some ((c # cs) ! Suc j)
          \<and> bs' = sc ((c # cs) ! Suc j) \<and> f64_gt (sc ((c # cs) ! Suc j)) bs
          \<and> (\<forall>k < length (c # cs). \<not> f64_gt (sc ((c # cs) ! k)) (sc ((c # cs) ! Suc j)))
          \<and> (\<forall>k < Suc j. sc ((c # cs) ! k) \<noteq> sc ((c # cs) ! Suc j))"
        by simp
      then show ?thesis by blast
    qed
  next
    case False
    with Cons.prems have run: "selectBest sc cs (best, bs) = (best', bs')" by simp
    from Cons.IH[OF run] show ?thesis
    proof (elim disjE conjE exE)
      assume "best' = best" "bs' = bs" "\<forall>x \<in> set cs. \<not> f64_gt (sc x) bs"
      with False show ?thesis by simp
    next
      fix j
      assume j: "j < length cs" "best' = Some (cs ! j)" "bs' = sc (cs ! j)"
        "f64_gt (sc (cs ! j)) bs"
        "\<forall>k < length cs. \<not> f64_gt (sc (cs ! k)) (sc (cs ! j))"
        "\<forall>k < j. sc (cs ! k) \<noteq> sc (cs ! j)"
      have notc: "\<not> f64_gt (sc c) (sc (cs ! j))"
        using j(4) False f64_gt_trans by blast
      have neq: "sc c \<noteq> sc (cs ! j)"
        using j(4) False by auto
      have mx: "\<forall>k < length (c # cs). \<not> f64_gt (sc ((c # cs) ! k)) (sc (cs ! j))"
      proof (intro allI impI)
        fix k assume "k < length (c # cs)"
        then show "\<not> f64_gt (sc ((c # cs) ! k)) (sc (cs ! j))"
          using notc j(5) by (cases k) auto
      qed
      have fst: "\<forall>k < Suc j. sc ((c # cs) ! k) \<noteq> sc (cs ! j)"
      proof (intro allI impI)
        fix k assume "k < Suc j"
        then show "sc ((c # cs) ! k) \<noteq> sc (cs ! j)"
          using neq j(6) by (cases k) auto
      qed
      from j mx fst have "Suc j < length (c # cs) \<and> best' = Some ((c # cs) ! Suc j)
          \<and> bs' = sc ((c # cs) ! Suc j) \<and> f64_gt (sc ((c # cs) ! Suc j)) bs
          \<and> (\<forall>k < length (c # cs). \<not> f64_gt (sc ((c # cs) ! k)) (sc ((c # cs) ! Suc j)))
          \<and> (\<forall>k < Suc j. sc ((c # cs) ! k) \<noteq> sc ((c # cs) ! Suc j))"
        by simp
      then show ?thesis by blast
    qed
  qed
qed

lemma Reply_selectBest:
  assumes "tok b = Some tk" and "pivotCandidates w (Split w tk text) \<noteq> []"
  shows "\<exists>best bs. selectBest (Score w) (candidates advances) (None, Finite (- 1)) = (best, bs)
           \<and> Reply w b advances text =
               Inr (case best of None \<Rightarrow> ''no replies :  ('' | Some r \<Rightarrow> ToString w r)"
proof -
  let ?ids = "pivotCandidates w (Split w tk text)"
  let ?st0 = "\<lparr>bestReply = None, bestScore = Finite (- 1), count = 0, searches = 1\<rparr>"
  from replySearch_ok[OF assms(2), of w 0]
  obtain pivot where pv: "replySearch w 0 ?ids = Inr pivot" by blast
  from replyLoop_selectBest[OF assms(2), of w advances ?st0]
  obtain st' where st': "replyLoop w ?ids advances ?st0 = Inr st'"
    "(bestReply st', bestScore st') =
       selectBest (Score w) (candidates advances) (None, Finite (- 1))"
    by auto
  have "Reply w b advances text =
          Inr (case bestReply st' of None \<Rightarrow> ''no replies :  ('' | Some r \<Rightarrow> ToString w r)"
    using assms(1) pv st'(1) by (simp add: Reply_def split: option.split)
  with st'(2) show ?thesis by metis
qed

lemma Reply_without_pivots:
  assumes "tok b = Some tk" and "pivotCandidates w (Split w tk text) = []"
  shows "Reply w b advances text = Inl IntnInvalidArgument"
  using assms by (simp add: Reply_def replySearch_panic)

lemma OpenBrain_succeeds_iff:
  "(\<exists>b. OpenBrain openGraph GetInfoString path = Inr b) \<longleftrightarrow>
     (\<exists>g name. openGraph path = Inr g \<and> GetInfoString g ''version'' = Inr ''2''
        \<and> GetInfoString g ''tokenizer'' = Inr name)"
  by (auto simp: OpenBrain_def split: sum.splits if_splits)

lemma countLoop_filter:
  "countLoop tokens n = n + int (length (filter (\<lambda>t. t \<noteq> '' '') tokens))"
  by (induction tokens arbitrary: n) simp_all

lemma countGoodTokens_filter:
  "countGoodTokens tokens = int (length (filter (\<lambda>t. t \<noteq> '' '') tokens))"
  by (simp add: countGoodTokens_def countLoop_filter)

text \<open>
  C4 says that \<open>Reply\<close> returns a string and never panics, for every input text,
  also when the vocabulary of the store is empty and babbling yields no pivot. The code
  does not do so: with no eligible pivot, no stem and no random token, the candidate
  list is empty, and the first \<open>replySearch\<close> calls \<open>rand.Intn(0)\<close> in
  \<open>pickPivot\<close>, which panics. Here the store knows no word of the text.
\<close>

theorem Reply_empty_vocabulary_panics:
  "Reply (tableCollaborators [] [] [])
     \<lparr>graph = freshGraph ''cobe'', tok = Some CobeTokenizer, scorer = cobeScorer\<rparr>
     [] ''hello'' = Inl IntnInvalidArgument"
  by (simp add: Reply_def pivotCandidates_def tableCollaborators_def splitWords_def
      unique_def uniqueIds_def babble_def replySearch_def pickPivot_def)

text \<open>
  C5, as the claim states it, fails: the best score starts at \<open>-1\<close>, so a reply
  whose score is not above \<open>-1\<close> never becomes the best. Here one reply is scored,
  with score \<open>-2\<close> and text \<open>hello \<close>, and \<open>Reply\<close> returns the sentinel.
\<close>

theorem Reply_low_score_counterexample:
  "candidates [(Some [], Some [7])] = [[7]]
   \<and> Score (tableCollaborators [5] [([7], Finite (- 2))] [(7, ''hello'')]) [7] = Finite (- 2)
   \<and> ToString (tableCollaborators [5] [([7], Finite (- 2))] [(7, ''hello'')]) [7] = ''hello ''
   \<and> Reply (tableCollaborators [5] [([7], Finite (- 2))] [(7, ''hello'')])
        \<lparr>graph = freshGraph ''cobe'', tok = Some CobeTokenizer, scorer = cobeScorer\<rparr>
        [(Some [], Some [7])] ''hello'' = Inr ''no replies :  (''"
  by (simp add: Reply_def pivotCandidates_def tableCollaborators_def unique_def
      uniqueIds_def replySearch_def pickPivot_def join_def ToString_def)

text \<open>
  C5, amended. With a tokenizer and at least one pivot candidate, \<open>Reply\<close> returns.
  The best-seen reply starts as none with best score \<open>-1\<close> and is replaced only by
  a reply whose score is strictly greater than the best score. So when some scored
  reply has a score above \<open>-1\<close>, \<open>Reply\<close> returns the text of a scored reply
  whose score is above \<open>-1\<close>, that no scored reply exceeds, and that no earlier
  scored reply equals (ties keep the earlier reply); when no scored reply has a score
  above \<open>-1\<close>, in particular when none was scored, it returns the sentinel.
\<close>

theorem Reply_selection:
  assumes "tok b = Some tk" and "pivotCandidates w (Split w tk text) \<noteq> []"
  shows "\<exists>s. Reply w b advances text = Inr s \<and>
     (if \<exists>c \<in> set (candidates advances). f64_gt (Score w c) (Finite (- 1))
      then \<exists>j < length (candidates advances).
             s = ToString w (candidates advances ! j)
             \<and> f64_gt (Score w (candidates advances ! j)) (Finite (- 1))
             \<and> (\<forall>k < length (candidates advances).
                   \<not> f64_gt (Score w (candidates advances ! k))
                             (Score w (candidates advances ! j)))
             \<and> (\<forall>k < j. Score w (candidates advances ! k) \<noteq> Score w (candidates advances ! j))
      else s = ''no replies :  ('')"
proof -
  let ?cs = "candidates advances"
  from Reply_selectBest[OF assms, of advances]
  obtain best bs where sel: "selectBest (Score w) ?cs (None, Finite (- 1)) = (best, bs)"
    and rep: "Reply w b advances text =
                Inr (case best of None \<Rightarrow> ''no replies :  ('' | Some r \<Rightarrow> ToString w r)"
    by blast
  from selectBest_result[OF sel] show ?thesis
  proof (elim disjE conjE exE)
    assume "best = None" "\<forall>c \<in> set ?cs. \<not> f64_gt (Score w c) (Finite (- 1))"
    with rep show ?thesis by simp
  next
    fix j
    assume j: "j < length ?cs" "best = Some (?cs ! j)"
      "f64_gt (Score w (?cs ! j)) (Finite (- 1))"
      "\<forall>k < length ?cs. \<not> f64_gt (Score w (?cs ! k)) (Score w (?cs ! j))"
      "\<forall>k < j. Score w (?cs ! k) \<noteq> Score w (?cs ! j)"
    from j(1,3) have ex: "\<exists>c \<in> set ?cs. f64_gt (Score w c) (Finite (- 1))"
      using nth_mem by blast
    from rep j(2) have "Reply w b advances text = Inr (ToString w (?cs ! j))" by simp
    with ex j show ?thesis by auto
  qed
qed

theorem Reply_selection_witness:
  "tok \<lparr>graph = freshGraph ''cobe'', tok = Some CobeTokenizer, scorer = cobeScorer\<rparr>
     = Some CobeTokenizer
   \<and> pivotCandidates
       (tableCollaborators [5] [([7], Finite 2), ([8], Finite 3), ([9], Finite 3)]
          [(7, ''a''), (8, ''b''), (9, ''c'')])
       (Split (tableCollaborators [5] [([7], Finite 2), ([8], Finite 3), ([9], Finite 3)]
          [(7, ''a''), (8, ''b''), (9, ''c'')]) CobeTokenizer ''hello'') \<noteq> []
   \<and> Reply (tableCollaborators [5] [([7], Finite 2), ([8], Finite 3), ([9], Finite 3)]
          [(7, ''a''), (8, ''b''), (9, ''c'')])
        \<lparr>graph = freshGraph ''cobe'', tok = Some CobeTokenizer, scorer = cobeScorer\<rparr>
        [(Some [], Some [7]), (None, None), (Some [8], Some []), (Some [], Some [9])]
        ''hello'' = Inr ''b ''"
proof -
  let ?w = "tableCollaborators [5] [([7], Finite 2), ([8], Finite 3), ([9], Finite 3)]
          [(7, ''a''), (8, ''b''), (9, ''c'')]"
  let ?b = "\<lparr>graph = freshGraph ''cobe'', tok = Some CobeTokenizer, scorer = cobeScorer\<rparr>"
  have h1: "tok ?b = Some CobeTokenizer" by simp
  have h2: "pivotCandidates ?w (Split ?w CobeTokenizer ''hello'') \<noteq> []"
    by (simp add: pivotCandidates_def tableCollaborators_def unique_def uniqueIds_def)
  have run: "Reply ?w ?b
        [(Some [], Some [7]), (None, None), (Some [8], Some []), (Some [], Some [9])]
        ''hello'' = Inr ''b ''"
    by (simp add: Reply_def pivotCandidates_def tableCollaborators_def unique_def
        uniqueIds_def replySearch_def pickPivot_def join_def ToString_def)
  from Reply_selection[OF h1 h2] h1 h2 run show ?thesis by blast
qed

text \<open>
  C6. With a tokenizer, \<open>Learn\<close> is a no-op for every input whose count of
  non-space tokens is less than or equal to the order of the store: it returns with
  the store as it was, so no token, node or edge was created, no weight was
  incremented, and the token, node and edge counts are unchanged.
\<close>

theorem Learn_short_input_noop:
  assumes "tok b = Some tk"
    and "int (length (filter (\<lambda>t. t \<noteq> '' '') (splitText tk text))) \<le> getOrder ops (graph b)"
  shows "Learn capOf splitText ops b text = Inr (graph b)"
  using assms by (simp add: Learn_def countGoodTokens_filter)

theorem Learn_short_input_noop_witness:
  "tok \<lparr>graph = freshGraph ''cobe'', tok = Some CobeTokenizer, scorer = cobeScorer\<rparr>
     = Some CobeTokenizer
   \<and> int (length (filter (\<lambda>t. t \<noteq> '' '') (splitWords CobeTokenizer ''cobe cobe cobe'')))
       \<le> getOrder memOps (freshGraph ''cobe'')
   \<and> Learn exactCap splitWords memOps
       \<lparr>graph = freshGraph ''cobe'', tok = Some CobeTokenizer, scorer = cobeScorer\<rparr>
       ''cobe cobe cobe'' = Inr (freshGraph ''cobe'')"
proof -
  let ?b = "\<lparr>graph = freshGraph ''cobe'', tok = Some CobeTokenizer, scorer = cobeScorer\<rparr>"
  have h1: "tok ?b = Some CobeTokenizer" by simp
  have h2: "int (length (filter (\<lambda>t. t \<noteq> '' '')
               (splitWords CobeTokenizer ''cobe cobe cobe'')))
             \<le> getOrder memOps (graph ?b)"
    by (simp add: splitWords_def memOps_def freshGraph_def)
  have "Learn exactCap splitWords memOps ?b ''cobe cobe cobe'' = Inr (graph ?b)"
    using h1 h2 by (rule Learn_short_input_noop)
  with h1 h2 show ?thesis by simp
qed

text \<open>
  C7 says that \<open>OpenBrain\<close> fails whenever the version is unsupported or the
  tokenizer name is unrecognized. The code checks the version only: for a store of
  version 2 whose tokenizer name is \<open>foo\<close>, \<open>getTokenizer\<close> returns nil and
  \<open>OpenBrain\<close> returns a brain with a nil tokenizer and no error.
\<close>

theorem OpenBrain_unrecognized_tokenizer:
  "OpenBrain (\<lambda>path. Inr (freshGraph ''foo'')) memGetInfoString ''pg11.brain'' =
     Inr \<lparr>graph = freshGraph ''foo'', tok = None, scorer = cobeScorer\<rparr>"
  by (simp add: OpenBrain_def memGetInfoString_def freshGraph_def getTokenizer_def
      ToLower_def toLowerChar_def)

end
